theory Spec2Isabelle
  imports Main "HOL-Library.Sublist"
begin

section \<open>The document segmentation engine of src/src/chunking.py\<close>

subsection \<open>Tokenizer, configuration and chunk dictionaries\<close>

text \<open>
  The tokenizer (tiktoken) is an external library. The chunker only calls its \<open>encode\<close>
  and \<open>decode\<close>, so the model takes both as fields of the encoding object and is
  parametric in the token type.
\<close>

record 'tok encoding =
  encode :: "string \<Rightarrow> 'tok list"
  decode :: "'tok list \<Rightarrow> string"

text \<open>
  \<open>DocumentChunker.__init__\<close> stores \<open>chunk_size\<close>, \<open>chunk_overlap\<close> (Python ints, not
  validated) and the encoding.
\<close>

record 'tok document_chunker =
  chunk_size :: int
  chunk_overlap :: int
  encoding :: "'tok encoding"

text \<open>
  Until \<open>smart_chunk\<close> merges caller metadata, every chunk dictionary has exactly the keys
  \<open>text\<close>, \<open>token_count\<close>, \<open>start_char\<close>, \<open>end_char\<close>, \<open>strategy\<close> and, inside a detected
  section, \<open>section_title\<close> (an absent key is \<open>None\<close>). The key \<open>text\<close> is the field
  \<open>chunk_text\<close>.
\<close>

record chunk =
  chunk_text :: string
  token_count :: int
  start_char :: int
  end_char :: int
  strategy :: string
  section_title :: "string option"

definition count_tokens :: "'tok document_chunker \<Rightarrow> string \<Rightarrow> int" where
  "count_tokens ck t = (if t = [] then 0 else int (length (encode (encoding ck) t)))"

text \<open>
  \<open>_create_chunk_dict(text, start_idx, metadata)\<close>: the callers pass as metadata either
  \<open>{"strategy": s}\<close> or \<open>{"section_title": t, "strategy": s}\<close>, which here are the last
  two arguments.
\<close>

definition create_chunk_dict ::
  "'tok document_chunker \<Rightarrow> string \<Rightarrow> int \<Rightarrow> string \<Rightarrow> string option \<Rightarrow> chunk" where
  "create_chunk_dict ck t start_idx strat title =
     \<lparr> chunk_text = t,
       token_count = count_tokens ck t,
       start_char = start_idx,
       end_char = start_idx + int (length t),
       strategy = strat,
       section_title = title \<rparr>"

subsection \<open>Token-window splitter\<close>

text \<open>
  Python's \<open>xs[lo:hi]\<close>: a negative bound counts from the end, and both bounds are clamped
  to the list.
\<close>

definition py_slice :: "'a list \<Rightarrow> int \<Rightarrow> int \<Rightarrow> 'a list" where
  "py_slice xs lo hi =
     (let n = int (length xs);
          a = (if lo < 0 then max (lo + n) 0 else min lo n);
          b = (if hi < 0 then max (hi + n) 0 else min hi n)
      in take (nat (b - a)) (drop (nat a) xs))"

definition token_step :: "'tok document_chunker \<Rightarrow> int" where
  "token_step ck =
     (let step = chunk_size ck - chunk_overlap ck
      in if step \<le> 0 then 1 else step)"

text \<open>
  The body of \<open>for i in range(0, total_tokens, step)\<close> with its \<open>break\<close>, started at
  \<open>i = 0\<close>. Each iteration appends one chunk.
\<close>

function token_windows :: "'tok document_chunker \<Rightarrow> 'tok list \<Rightarrow> int \<Rightarrow> chunk list" where
  "token_windows ck tokens i =
     (if i < int (length tokens) then
        create_chunk_dict ck
          (decode (encoding ck) (py_slice tokens i (i + chunk_size ck))) (- 1) ''token'' None
        # (if i + chunk_size ck \<ge> int (length tokens) then []
           else token_windows ck tokens (i + token_step ck))
      else [])"
  by pat_completeness auto
termination
  by (relation "measure (\<lambda>(ck, tokens, i). nat (int (length tokens) - i))")
     (auto simp: token_step_def Let_def)

declare token_windows.simps [simp del]

definition chunk_by_tokens :: "'tok document_chunker \<Rightarrow> string \<Rightarrow> chunk list" where
  "chunk_by_tokens ck t = token_windows ck (encode (encoding ck) t) 0"

subsection \<open>Python string operations\<close>

text \<open>
  A text is a list of characters, one \<open>char\<close> per code point below 256. On that range
  \<open>str.isspace\<close> and the regular-expression class \<open>\s\<close> hold of exactly the code points
  9 to 13, 28 to 32, 133 and 160.
\<close>

definition is_space :: "char \<Rightarrow> bool" where
  "is_space c =
     (let n = (of_char c :: nat)
      in (9 \<le> n \<and> n \<le> 13) \<or> (28 \<le> n \<and> n \<le> 32) \<or> n = 133 \<or> n = 160)"

definition newline :: char where
  "newline = CHR 0x0A"

definition py_strip :: "string \<Rightarrow> string" where
  "py_strip s = rev (dropWhile is_space (rev (dropWhile is_space s)))"

text \<open>\<open>sep.join(parts)\<close>.\<close>

fun py_join :: "string \<Rightarrow> string list \<Rightarrow> string" where
  "py_join sep [] = []"
| "py_join sep [p] = p"
| "py_join sep (p # q # ps) = p @ sep @ py_join sep (q # ps)"

text \<open>\<open>text.find(p, start)\<close> for \<open>start \<ge> 0\<close>: the lowest index from \<open>start\<close> on, or -1.\<close>

function py_find :: "string \<Rightarrow> string \<Rightarrow> nat \<Rightarrow> int" where
  "py_find t p i =
     (if i + length p > length t then - 1
      else if take (length p) (drop i t) = p then int i
      else py_find t p (Suc i))"
  by pat_completeness auto
termination
  by (relation "measure (\<lambda>(t, p, i). Suc (length t) - i)") auto

declare py_find.simps [simp del]

subsection \<open>Regular expressions\<close>

text \<open>
  The fragment of Python's \<open>re\<close> syntax the chunker's four patterns use. No flag is set:
  \<open>^\<close> matches at the start of the text only, \<open>$\<close> at its end or before a final newline,
  and \<open>.\<close> is any character but a newline. Groups only matter for precedence, since the
  code reads \<open>group(0)\<close>, \<open>start()\<close> and \<open>end()\<close> alone.
\<close>

datatype rx =
    Cls "char \<Rightarrow> bool"
  | Str string
  | Bol
  | Eol
  | Seq rx rx
  | Alt rx rx
  | Opt rx
  | Star rx
  | LazyStar rx

text \<open>\<open>r+\<close> is \<open>r\<close> followed by \<open>r*\<close>.\<close>

definition Plus_rx :: "rx \<Rightarrow> rx" where
  "Plus_rx r = Seq r (Star r)"

text \<open>
  \<open>rx_ends r s i\<close> lists the positions where a match of \<open>r\<close> begun at position \<open>i\<close> of
  \<open>s\<close> can end, in the order a backtracking matcher tries them: the left alternative
  first, a greedy repetition longest first, a lazy one shortest first. The match Python
  reports is the head of the list. A repetition only iterates on a body match that
  consumed a character (every repeated body in the four patterns is one character class).
\<close>

function rx_ends :: "rx \<Rightarrow> string \<Rightarrow> nat \<Rightarrow> nat list" where
  "rx_ends (Cls P) s i = (if i < length s \<and> P (s ! i) then [Suc i] else [])"
| "rx_ends (Str w) s i = (if take (length w) (drop i s) = w then [i + length w] else [])"
| "rx_ends Bol s i = (if i = 0 then [i] else [])"
| "rx_ends Eol s i =
     (if i = length s \<or> (Suc i = length s \<and> s ! i = newline) then [i] else [])"
| "rx_ends (Seq a b) s i = concat (map (\<lambda>j. rx_ends b s j) (rx_ends a s i))"
| "rx_ends (Alt a b) s i = rx_ends a s i @ rx_ends b s i"
| "rx_ends (Opt a) s i = rx_ends a s i @ [i]"
| "rx_ends (Star a) s i =
     concat (map (\<lambda>j. if i < j \<and> j \<le> length s then rx_ends (Star a) s j else [])
                 (rx_ends a s i)) @ [i]"
| "rx_ends (LazyStar a) s i =
     i # concat (map (\<lambda>j. if i < j \<and> j \<le> length s then rx_ends (LazyStar a) s j else [])
                     (rx_ends a s i))"
  by pat_completeness auto
termination
  by (relation "measures [\<lambda>(r, s, i). size r, \<lambda>(r, s, i). length s - i]") auto

text \<open>The leftmost match at or after position \<open>i\<close>, as \<open>(start, end)\<close>.\<close>

function rx_search :: "rx \<Rightarrow> string \<Rightarrow> nat \<Rightarrow> (nat \<times> nat) option" where
  "rx_search r s i =
     (if i > length s then None
      else case rx_ends r s i of
             e # _ \<Rightarrow> Some (i, e)
           | [] \<Rightarrow> rx_search r s (Suc i))"
  by pat_completeness auto
termination
  by (relation "measure (\<lambda>(r, s, i). Suc (length s) - i)") auto

declare rx_search.simps [simp del]

lemma rx_search_bounds:
  "rx_search r s i = Some (a, b) \<Longrightarrow> i \<le> a \<and> a \<le> length s"
proof (induction r s i rule: rx_search.induct)
  case (1 r s i)
  show ?case
  proof (cases "rx_ends r s i")
    case Nil
    with 1 show ?thesis
      by (subst (asm) (2) rx_search.simps) (auto split: if_splits)
  next
    case (Cons e es)
    with "1.prems" show ?thesis
      by (subst (asm) rx_search.simps) (auto split: if_splits)
  qed
qed

text \<open>
  \<open>re.finditer(pat, text)\<close> from position \<open>i\<close> on: the non-overlapping matches from left
  to right, as \<open>(start, end)\<close>. After a non-empty match the scan resumes at its end (none of
  the four patterns can match the empty string; after an empty match the scan would move
  on by one).
\<close>

function finditer_from :: "rx \<Rightarrow> string \<Rightarrow> nat \<Rightarrow> (nat \<times> nat) list" where
  "finditer_from r s i =
     (case rx_search r s i of
        None \<Rightarrow> []
      | Some (a, b) \<Rightarrow> (a, b) # finditer_from r s (max (Suc a) b))"
  by pat_completeness auto
termination
proof (relation "measure (\<lambda>(r, s, i). Suc (length s) - i)")
  show "wf (measure (\<lambda>(r, s, i). Suc (length s) - i))" by simp
next
  fix r :: rx and s :: string and i :: nat and x2 :: "nat \<times> nat" and a b :: nat
  assume "rx_search r s i = Some x2" and "(a, b) = x2"
  then have "i \<le> a \<and> a \<le> length s"
    using rx_search_bounds [of r s i a b] by simp
  then show "((r, s, max (Suc a) b), (r, s, i)) \<in> measure (\<lambda>(r, s, i). Suc (length s) - i)"
    by auto
qed

declare finditer_from.simps [simp del]

definition finditer :: "rx \<Rightarrow> string \<Rightarrow> (nat \<times> nat) list" where
  "finditer r s = finditer_from r s 0"

text \<open>\<open>re.split(pat, text)\<close> for a pattern without groups: the pieces between the matches.\<close>

fun split_at :: "string \<Rightarrow> nat \<Rightarrow> (nat \<times> nat) list \<Rightarrow> string list" where
  "split_at s pos [] = [drop pos s]"
| "split_at s pos ((a, b) # ms) = take (a - pos) (drop pos s) # split_at s b ms"

definition re_split :: "rx \<Rightarrow> string \<Rightarrow> string list" where
  "re_split r s = split_at s 0 (finditer r s)"

text \<open>A sequence of pattern items, as they are written side by side in a pattern.\<close>

fun seqs :: "rx list \<Rightarrow> rx" where
  "seqs [] = Str []"
| "seqs [r] = r"
| "seqs (r # q # rs) = Seq r (seqs (q # rs))"

definition is_digit :: "char \<Rightarrow> bool" where
  "is_digit c = (let n = (of_char c :: nat) in 48 \<le> n \<and> n \<le> 57)"

definition is_upper :: "char \<Rightarrow> bool" where
  "is_upper c = (let n = (of_char c :: nat) in 65 \<le> n \<and> n \<le> 90)"

definition is_newline :: "char \<Rightarrow> bool" where
  "is_newline c = (c = newline)"

definition not_newline :: "char \<Rightarrow> bool" where
  "not_newline c = (c \<noteq> newline)"

definition is_dot :: "char \<Rightarrow> bool" where
  "is_dot c = (c = CHR ''.'')"

definition is_roman :: "char \<Rightarrow> bool" where
  "is_roman c = (c = CHR ''I'' \<or> c = CHR ''V'' \<or> c = CHR ''X'')"

definition is_caps_body :: "char \<Rightarrow> bool" where
  "is_caps_body c = (is_upper c \<or> is_space c \<or> c = CHR ''('' \<or> c = CHR '')'')"

text \<open>\<^verbatim>\<open>\n\s*\n\<close>, the paragraph boundary.\<close>

definition paragraph_break :: rx where
  "paragraph_break = seqs [Cls is_newline, Star (Cls is_space), Cls is_newline]"

text \<open>\<^verbatim>\<open>(?:^|\n)(?:SECTION|ARTICLE)\s+([0-9]+|[IVX]+)\.?\s*(.*)(?:\n|$)\<close>\<close>

definition section_pattern :: rx where
  "section_pattern =
     seqs [Alt Bol (Cls is_newline),
           Alt (Str ''SECTION'') (Str ''ARTICLE''),
           Plus_rx (Cls is_space),
           Alt (Plus_rx (Cls is_digit)) (Plus_rx (Cls is_roman)),
           Opt (Cls is_dot),
           Star (Cls is_space),
           Star (Cls not_newline),
           Alt (Cls is_newline) Eol]"

text \<open>\<^verbatim>\<open>(?:^|\n)([0-9]+\.[0-9]+(?:\.[0-9]+)?)\s+(.*?)(?:\n|$)\<close>\<close>

definition numbered_pattern :: rx where
  "numbered_pattern =
     seqs [Alt Bol (Cls is_newline),
           Plus_rx (Cls is_digit),
           Cls is_dot,
           Plus_rx (Cls is_digit),
           Opt (Seq (Cls is_dot) (Plus_rx (Cls is_digit))),
           Plus_rx (Cls is_space),
           LazyStar (Cls not_newline),
           Alt (Cls is_newline) Eol]"

text \<open>\<^verbatim>\<open>(?:^|\n)([A-Z][A-Z\s\(\)]+)(?:\n|$)\<close>\<close>

definition header_caps_pattern :: rx where
  "header_caps_pattern =
     seqs [Alt Bol (Cls is_newline),
           Cls is_upper,
           Plus_rx (Cls is_caps_body),
           Alt (Cls is_newline) Eol]"

subsection \<open>Paragraph splitter\<close>

text \<open>An entry of \<open>para_infos\<close>: \<open>{"text": p, "start": start}\<close>.\<close>

record para_info =
  para_text :: string
  para_start :: int

fun para_infos_from :: "string \<Rightarrow> nat \<Rightarrow> string list \<Rightarrow> para_info list" where
  "para_infos_from t search_start [] = []"
| "para_infos_from t search_start (p # ps) =
     (let found = py_find t p search_start;
          start = (if found = - 1 then int search_start else found)
      in \<lparr> para_text = p, para_start = start \<rparr>
         # para_infos_from t (nat (start + int (length p))) ps)"

text \<open>
  Emitting the pending group: the paragraphs joined by a blank line, at the first
  paragraph's start. Every call is guarded by \<open>current_chunk\<close> being non-empty.
\<close>

definition paragraph_chunk :: "'tok document_chunker \<Rightarrow> para_info list \<Rightarrow> chunk" where
  "paragraph_chunk ck current =
     create_chunk_dict ck
       (py_join [newline, newline] (map para_text current))
       (para_start (hd current)) ''paragraph'' None"

text \<open>
  The overlap loop \<open>for old_p in reversed(current_chunk)\<close>: the first argument is what is
  left of the reversed group, the others are \<open>new_chunk\<close> and \<open>overlap_tokens\<close>.
\<close>

fun overlap_loop ::
  "'tok document_chunker \<Rightarrow> para_info list \<Rightarrow> para_info list \<Rightarrow> int \<Rightarrow> para_info list \<times> int" where
  "overlap_loop ck [] new_chunk overlap_tokens = (new_chunk, overlap_tokens)"
| "overlap_loop ck (old_p # rest) new_chunk overlap_tokens =
     (let p_tok = count_tokens ck (para_text old_p)
      in if overlap_tokens + p_tok \<le> chunk_overlap ck
         then overlap_loop ck rest (old_p # new_chunk) (overlap_tokens + p_tok)
         else (new_chunk, overlap_tokens))"

definition overlap_seed :: "'tok document_chunker \<Rightarrow> para_info list \<Rightarrow> para_info list \<times> int" where
  "overlap_seed ck current = overlap_loop ck (rev current) [] 0"

text \<open>The summed token counts of a group of paragraphs, as \<open>current_tokens\<close> tracks them.\<close>

definition group_tokens :: "'tok document_chunker \<Rightarrow> para_info list \<Rightarrow> int" where
  "group_tokens ck ps = sum_list (map (\<lambda>p. count_tokens ck (para_text p)) ps)"

record para_state =
  chunks :: "chunk list"
  current_chunk :: "para_info list"
  current_tokens :: int

text \<open>The sub-chunks of an oversized paragraph, with the two fields the loop overwrites.\<close>

definition subsplit_chunks :: "'tok document_chunker \<Rightarrow> para_info \<Rightarrow> chunk list" where
  "subsplit_chunks ck para =
     map (\<lambda>sc. sc\<lparr> start_char := para_start para, strategy := ''paragraph_subsplit'' \<rparr>)
         (chunk_by_tokens ck (para_text para))"

text \<open>One iteration of \<open>for i, para in enumerate(para_infos)\<close>.\<close>

definition para_step :: "'tok document_chunker \<Rightarrow> para_state \<Rightarrow> para_info \<Rightarrow> para_state" where
  "para_step ck st para =
     (let p_tokens = count_tokens ck (para_text para);
          st1 = (if current_tokens st + p_tokens > chunk_size ck \<and> current_chunk st \<noteq> []
                 then (let (new_chunk, overlap_tokens) = overlap_seed ck (current_chunk st)
                       in \<lparr> chunks = chunks st @ [paragraph_chunk ck (current_chunk st)],
                            current_chunk = new_chunk,
                            current_tokens = overlap_tokens \<rparr>)
                 else st)
      in if p_tokens > chunk_size ck
         then (let st2 = (if current_chunk st1 \<noteq> []
                          then \<lparr> chunks = chunks st1 @ [paragraph_chunk ck (current_chunk st1)],
                                 current_chunk = [],
                                 current_tokens = 0 \<rparr>
                          else st1)
               in st2\<lparr> chunks := chunks st2 @ subsplit_chunks ck para \<rparr>)
         else st1\<lparr> current_chunk := current_chunk st1 @ [para],
                   current_tokens := current_tokens st1 + p_tokens \<rparr>)"

definition para_loop :: "'tok document_chunker \<Rightarrow> para_info list \<Rightarrow> chunk list" where
  "para_loop ck infos =
     (let st = foldl (para_step ck)
                 \<lparr> chunks = [], current_chunk = [], current_tokens = 0 \<rparr> infos
      in if current_chunk st \<noteq> []
         then chunks st @ [paragraph_chunk ck (current_chunk st)]
         else chunks st)"

definition chunk_by_paragraphs :: "'tok document_chunker \<Rightarrow> string \<Rightarrow> chunk list" where
  "chunk_by_paragraphs ck t =
     para_loop ck (para_infos_from t 0 (re_split paragraph_break t))"

subsection \<open>Section splitter\<close>

text \<open>An entry of \<open>matches\<close>: \<open>start\<close>, \<open>end\<close> and the stripped \<open>group(0)\<close> as title.\<close>

record header_match =
  m_start :: nat
  m_end :: nat
  title :: string

definition pattern_matches :: "rx \<Rightarrow> string \<Rightarrow> header_match list" where
  "pattern_matches pat t =
     map (\<lambda>(a, b). \<lparr> m_start = a, m_end = b, title = py_strip (take (b - a) (drop a t)) \<rparr>)
         (finditer pat t)"

definition all_matches :: "string \<Rightarrow> header_match list" where
  "all_matches t =
     concat (map (\<lambda>pat. pattern_matches pat t)
                 [section_pattern, numbered_pattern, header_caps_pattern])"

text \<open>The greedy overlap filter, with \<open>curr_end\<close> as first argument.\<close>

fun take_first :: "int \<Rightarrow> header_match list \<Rightarrow> header_match list" where
  "take_first curr_end [] = []"
| "take_first curr_end (m # ms) =
     (if int (m_start m) \<ge> curr_end then m # take_first (int (m_end m)) ms
      else take_first curr_end ms)"

definition unique_matches :: "string \<Rightarrow> header_match list" where
  "unique_matches t =
     (let matches = sort_key m_start (all_matches t)
      in if matches \<noteq> [] then take_first (- 1) matches else [])"

text \<open>
  The loop over \<open>unique_matches\<close>: a section runs to the start of the next match, or to the
  end of the text.
\<close>

fun section_chunks :: "'tok document_chunker \<Rightarrow> string \<Rightarrow> header_match list \<Rightarrow> chunk list" where
  "section_chunks ck t [] = []"
| "section_chunks ck t (m # ms) =
     (let section_start = m_start m;
          section_end = (case ms of [] \<Rightarrow> length t | m' # _ \<Rightarrow> m_start m');
          section_text = take (section_end - section_start) (drop section_start t)
      in (if count_tokens ck section_text > chunk_size ck
          then map (\<lambda>sc. sc\<lparr> section_title := Some (title m),
                               start_char := start_char sc + int section_start,
                               end_char := end_char sc + int section_start \<rparr>)
                   (chunk_by_paragraphs ck section_text)
          else [create_chunk_dict ck section_text (int section_start)
                  ''section'' (Some (title m))])
         @ section_chunks ck t ms)"

definition chunk_by_sections :: "'tok document_chunker \<Rightarrow> string \<Rightarrow> chunk list" where
  "chunk_by_sections ck t =
     (let unique = unique_matches t
      in if unique = [] then chunk_by_paragraphs ck t
         else (let chunks = section_chunks ck t unique
               in if m_start (hd unique) > 0
                  then (let preamble = take (m_start (hd unique)) t
                        in if py_strip preamble \<noteq> []
                           then chunk_by_paragraphs ck preamble @ chunks
                           else chunks)
                  else chunks))"

subsection \<open>Orchestrator\<close>

text \<open>
  \<open>smart_chunk\<close> merges arbitrary caller keys into each chunk, so from here on a chunk is
  the dictionary itself: a map from keys to Python values. The values modelled are
  strings, integers, booleans, \<open>None\<close> and, of the floats, the three that are not finite:
  \<open>nan\<close>, \<open>inf\<close> and \<open>-inf\<close> (the digits of a finite float are not modelled).
\<close>

datatype pyfloat = FNan | FInf | FNegInf

datatype pyval = PStr string | PInt int | PBool bool | PNone | PFloat pyfloat

type_synonym pydict = "string \<rightharpoonup> pyval"

datatype py_error = KeyError | TypeError

definition to_dict :: "chunk \<Rightarrow> pydict" where
  "to_dict c =
     (let d = [''text'' \<mapsto> PStr (chunk_text c),
               ''token_count'' \<mapsto> PInt (token_count c),
               ''start_char'' \<mapsto> PInt (start_char c),
               ''end_char'' \<mapsto> PInt (end_char c),
               ''strategy'' \<mapsto> PStr (strategy c)]
      in case section_title c of
           None \<Rightarrow> d
         | Some ti \<Rightarrow> d(''section_title'' \<mapsto> PStr ti))"

text \<open>Decimal digits of a natural number, and \<open>str(v)\<close> as an f-string formats it.\<close>

function str_of_nat :: "nat \<Rightarrow> string" where
  "str_of_nat n =
     (if n < 10 then [char_of (48 + n)]
      else str_of_nat (n div 10) @ [char_of (48 + n mod 10)])"
  by pat_completeness auto
termination
  by (relation "measure (\<lambda>n. n)") auto

declare str_of_nat.simps [simp del]

definition py_str :: "pyval \<Rightarrow> string" where
  "py_str v =
     (case v of
        PStr s \<Rightarrow> s
      | PInt n \<Rightarrow> (if n < 0 then CHR ''-'' # str_of_nat (nat (- n)) else str_of_nat (nat n))
      | PBool b \<Rightarrow> (if b then ''True'' else ''False'')
      | PNone \<Rightarrow> ''None''
      | PFloat FNan \<Rightarrow> ''nan''
      | PFloat FInf \<Rightarrow> ''inf''
      | PFloat FNegInf \<Rightarrow> ''-inf'')"

text \<open>
  Python's \<open>v < k\<close> and \<open>v >= k\<close> for an integer \<open>k\<close>: a boolean counts as 0 or 1, every
  comparison with \<open>nan\<close> is false, and a string or \<open>None\<close> raises TypeError.
\<close>

definition py_lt_int :: "pyval \<Rightarrow> int \<Rightarrow> py_error + bool" where
  "py_lt_int v k =
     (case v of
        PStr _ \<Rightarrow> Inl TypeError
      | PInt n \<Rightarrow> Inr (n < k)
      | PBool b \<Rightarrow> Inr ((if b then 1 else 0) < k)
      | PNone \<Rightarrow> Inl TypeError
      | PFloat FNan \<Rightarrow> Inr False
      | PFloat FInf \<Rightarrow> Inr False
      | PFloat FNegInf \<Rightarrow> Inr True)"


text \<open>
  The body of \<open>for i, chunk in enumerate(chunks)\<close>. A metadata of \<open>None\<close> or \<open>{}\<close> is
  the empty map, for which \<open>update\<close> changes nothing.
\<close>

definition finalize_chunk :: "pydict \<Rightarrow> nat \<Rightarrow> pydict \<Rightarrow> pydict" where
  "finalize_chunk metadata i d =
     (let d1 = d ++ metadata;
          d2 = d1(''chunk_index'' \<mapsto> PInt (int i));
          start = (case d2 ''start_char'' of None \<Rightarrow> PInt 0 | Some v \<Rightarrow> v)
      in d2(''chunk_id'' \<mapsto> PStr (''chnk_'' @ str_of_nat i @ ''_'' @ py_str start)))"

fun finalize_from :: "pydict \<Rightarrow> nat \<Rightarrow> pydict list \<Rightarrow> pydict list" where
  "finalize_from metadata i [] = []"
| "finalize_from metadata i (d # ds) =
     finalize_chunk metadata i d # finalize_from metadata (Suc i) ds"

text \<open>
  \<open>optimize_chunks\<close>: \<open>chunk["token_count"] < 10\<close> raises KeyError on a missing key and
  TypeError where the comparison does; a chunk is dropped when the comparison is true.
\<close>

fun optimize_chunks :: "pydict list \<Rightarrow> py_error + pydict list" where
  "optimize_chunks [] = Inr []"
| "optimize_chunks (d # ds) =
     (case d ''token_count'' of
        None \<Rightarrow> Inl KeyError
      | Some v \<Rightarrow>
          (case py_lt_int v 10 of
             Inl e \<Rightarrow> Inl e
           | Inr small \<Rightarrow>
               (case optimize_chunks ds of
                  Inl e \<Rightarrow> Inl e
                | Inr kept \<Rightarrow> Inr (if small then kept else d # kept))))"

definition smart_chunk ::
  "'tok document_chunker \<Rightarrow> string \<Rightarrow> pydict \<Rightarrow> py_error + pydict list" where
  "smart_chunk ck t metadata =
     optimize_chunks (finalize_from metadata 0 (map to_dict (chunk_by_sections ck t)))"

subsection \<open>Two concrete unit counters\<close>

text \<open>
  Concrete inputs need a concrete tokenizer. Two simple ones stand in for tiktoken: one
  token per whitespace-separated word, and one token per character.
\<close>

fun split_words :: "string \<Rightarrow> string \<Rightarrow> string list" where
  "split_words [] w = (if w = [] then [] else [w])"
| "split_words (c # cs) w =
     (if is_space c then (if w = [] then split_words cs [] else w # split_words cs [])
      else split_words cs (w @ [c]))"

definition word_encoding :: "string encoding" where
  "word_encoding = \<lparr> encode = (\<lambda>s. split_words s []), decode = py_join '' '' \<rparr>"

definition char_encoding :: "char encoding" where
  "char_encoding = \<lparr> encode = (\<lambda>s. s), decode = (\<lambda>ts. ts) \<rparr>"

definition word_chunker :: "int \<Rightarrow> int \<Rightarrow> string document_chunker" where
  "word_chunker cs co =
     \<lparr> chunk_size = cs, chunk_overlap = co, encoding = word_encoding \<rparr>"

definition char_chunker :: "int \<Rightarrow> int \<Rightarrow> char document_chunker" where
  "char_chunker cs co =
     \<lparr> chunk_size = cs, chunk_overlap = co, encoding = char_encoding \<rparr>"

text \<open>Three paragraphs of 5, 5 and 8 words, without any header.\<close>

definition three_paragraphs :: string where
  "three_paragraphs = ''a b c d e\<newline>\<newline>f g h i j\<newline>\<newline>k l m n o p q r''"

section \<open>Properties\<close>

subsection \<open>Token-window splitter\<close>

lemma token_windows_fields:
  "c \<in> set (token_windows ck tokens i) \<Longrightarrow>
     start_char c = - 1 \<and> end_char c = int (length (chunk_text c)) - 1 \<and>
     strategy c = ''token'' \<and> section_title c = None \<and>
     token_count c = count_tokens ck (chunk_text c)"
proof (induction ck tokens i rule: token_windows.induct)
  case (1 ck tokens i)
  from "1.prems" show ?case
    by (subst (asm) token_windows.simps)
       (auto simp: create_chunk_dict_def split: if_splits dest: "1.IH")
qed

lemma token_windows_length:
  "length (token_windows ck tokens i) \<le> nat (int (length tokens) - i)"
proof (induction ck tokens i rule: token_windows.induct)
  case (1 ck tokens i)
  have step: "1 \<le> token_step ck"
    by (simp add: token_step_def Let_def)
  show ?case
  proof (cases "i < int (length tokens) \<and> \<not> i + chunk_size ck \<ge> int (length tokens)")
    case True
    then have "length (token_windows ck tokens (i + token_step ck))
                 \<le> nat (int (length tokens) - (i + token_step ck))"
      using "1.IH" by simp
    with True step show ?thesis
      by (subst token_windows.simps) auto
  next
    case False
    then show ?thesis
      by (subst token_windows.simps) auto
  qed
qed

text \<open>
  C10. Every chunk returned directly by \<open>chunk_by_tokens\<close> has \<open>start_char\<close> equal to the
  sentinel -1, hence \<open>end_char\<close> equal to the length of its text minus 1, and carries the
  strategy \<open>token\<close>: no character offset is derived on the token-window path.
\<close>

theorem chunk_by_tokens_sentinel:
  "\<forall>c \<in> set (chunk_by_tokens ck t).
     start_char c = - 1 \<and> end_char c = int (length (chunk_text c)) - 1 \<and>
     strategy c = ''token''"
  unfolding chunk_by_tokens_def using token_windows_fields by blast

theorem chunk_by_tokens_sentinel_witness:
  "hd (chunk_by_tokens (word_chunker 3 1) ''a b c d e'')
     \<in> set (chunk_by_tokens (word_chunker 3 1) ''a b c d e'') \<and>
   start_char (hd (chunk_by_tokens (word_chunker 3 1) ''a b c d e'')) = - 1 \<and>
   end_char (hd (chunk_by_tokens (word_chunker 3 1) ''a b c d e''))
     = int (length (chunk_text (hd (chunk_by_tokens (word_chunker 3 1) ''a b c d e'')))) - 1 \<and>
   strategy (hd (chunk_by_tokens (word_chunker 3 1) ''a b c d e'')) = ''token''"
proof -
  have h: "hd (chunk_by_tokens (word_chunker 3 1) ''a b c d e'')
             \<in> set (chunk_by_tokens (word_chunker 3 1) ''a b c d e'')"
    by code_simp
  show ?thesis
    using h chunk_by_tokens_sentinel [of "word_chunker 3 1" "''a b c d e''"] by blast
qed

text \<open>
  C5. For every text and every configuration, also one with \<open>chunk_overlap \<ge> chunk_size\<close>,
  the window stride is \<open>max (chunk_size - chunk_overlap) 1\<close>, so it is never below 1, and
  the loop of \<open>chunk_by_tokens\<close> runs at most once per token of the text. (That the loop
  ends at all is the termination proof of \<open>token_windows\<close>: the distance to the end of the
  token list decreases by the stride.)
\<close>

theorem chunk_by_tokens_terminates:
  "token_step ck = max (chunk_size ck - chunk_overlap ck) 1 \<and>
   1 \<le> token_step ck \<and>
   length (chunk_by_tokens ck t) \<le> length (encode (encoding ck) t)"
proof -
  have "length (token_windows ck (encode (encoding ck) t) 0)
          \<le> nat (int (length (encode (encoding ck) t)) - 0)"
    by (rule token_windows_length)
  then show ?thesis
    by (simp add: chunk_by_tokens_def token_step_def Let_def max_def)
qed

subsection \<open>Paragraph and section splitters\<close>

lemma py_find_range: "py_find t p i = - 1 \<or> int i \<le> py_find t p i"
proof (induction t p i rule: py_find.induct)
  case (1 t p i)
  show ?case
  proof (cases "i + length p > length t \<or> take (length p) (drop i t) = p")
    case True
    then show ?thesis by (subst py_find.simps, subst (2) py_find.simps) auto
  next
    case False
    with "1.IH" have "py_find t p (Suc i) = - 1 \<or> int (Suc i) \<le> py_find t p (Suc i)"
      by simp
    moreover from False have "py_find t p i = py_find t p (Suc i)"
      by (subst py_find.simps) simp
    ultimately show ?thesis by auto
  qed
qed

lemma para_infos_from_start:
  "para \<in> set (para_infos_from t k ps) \<Longrightarrow> 0 \<le> para_start para"
proof (induction ps arbitrary: k)
  case Nil
  then show ?case by simp
next
  case (Cons p ps)
  from py_find_range [of t p k] Cons show ?case
    by (auto simp: Let_def split: if_splits)
qed

lemma foldl_invariant:
  "I s \<Longrightarrow> (\<And>s x. I s \<Longrightarrow> x \<in> set xs \<Longrightarrow> I (f s x)) \<Longrightarrow> I (foldl f s xs)"
  by (induction xs arbitrary: s) auto

lemma para_step_chunks:
  assumes "c \<in> set (chunks (para_step ck st para))"
  shows "c \<in> set (chunks st) \<or> (\<exists>g. g \<noteq> [] \<and> c = paragraph_chunk ck g) \<or>
         c \<in> set (subsplit_chunks ck para)"
  using assms
  by (auto simp: para_step_def Let_def split: prod.splits if_splits)

lemma para_loop_chunks:
  assumes "c \<in> set (para_loop ck infos)"
  shows "(\<exists>g. g \<noteq> [] \<and> c = paragraph_chunk ck g) \<or>
         (\<exists>para \<in> set infos. c \<in> set (subsplit_chunks ck para))"
proof -
  let ?Q = "\<lambda>c. (\<exists>g. g \<noteq> [] \<and> c = paragraph_chunk ck g) \<or>
                 (\<exists>para \<in> set infos. c \<in> set (subsplit_chunks ck para))"
  let ?st = "foldl (para_step ck) \<lparr> chunks = [], current_chunk = [], current_tokens = 0 \<rparr> infos"
  have "\<forall>c \<in> set (chunks ?st). ?Q c"
  proof (rule foldl_invariant [where I = "\<lambda>s. \<forall>c \<in> set (chunks s). ?Q c"])
    show "\<forall>c \<in> set (chunks \<lparr> chunks = [], current_chunk = [], current_tokens = 0 \<rparr>). ?Q c"
      by simp
  next
    fix s :: para_state and x :: para_info
    assume inv: "\<forall>c \<in> set (chunks s). ?Q c" and x: "x \<in> set infos"
    show "\<forall>c \<in> set (chunks (para_step ck s x)). ?Q c"
    proof
      fix c assume "c \<in> set (chunks (para_step ck s x))"
      from para_step_chunks [OF this] inv x show "?Q c" by blast
    qed
  qed
  with assms show ?thesis
    by (auto simp: para_loop_def Let_def split: if_splits)
qed

lemma paragraph_chunk_fields:
  "strategy (paragraph_chunk ck g) = ''paragraph'' \<and>
   section_title (paragraph_chunk ck g) = None \<and>
   end_char (paragraph_chunk ck g) - start_char (paragraph_chunk ck g)
     = int (length (chunk_text (paragraph_chunk ck g))) \<and>
   token_count (paragraph_chunk ck g) = count_tokens ck (chunk_text (paragraph_chunk ck g))"
  by (simp add: paragraph_chunk_def create_chunk_dict_def)

lemma subsplit_chunk_fields:
  assumes "c \<in> set (subsplit_chunks ck para)"
  shows "strategy c = ''paragraph_subsplit'' \<and> section_title c = None \<and>
         start_char c = para_start para \<and>
         end_char c = int (length (chunk_text c)) - 1 \<and>
         token_count c = count_tokens ck (chunk_text c)"
  using assms token_windows_fields
  by (fastforce simp: subsplit_chunks_def chunk_by_tokens_def)

lemma chunk_by_paragraphs_fields:
  assumes "c \<in> set (chunk_by_paragraphs ck t)"
  shows "section_title c = None \<and>
         (strategy c = ''paragraph'' \<and>
            end_char c - start_char c = int (length (chunk_text c)) \<or>
          strategy c = ''paragraph_subsplit'' \<and>
            end_char c = int (length (chunk_text c)) - 1)"
  using para_loop_chunks [OF assms [unfolded chunk_by_paragraphs_def]]
        paragraph_chunk_fields subsplit_chunk_fields
  by metis

lemma unique_matches_none:
  assumes "finditer section_pattern t = []" "finditer numbered_pattern t = []"
          "finditer header_caps_pattern t = []"
  shows "unique_matches t = []"
  using assms by (simp add: unique_matches_def all_matches_def pattern_matches_def)

text \<open>
  C6. When none of the three header patterns matches anywhere in the text,
  \<open>chunk_by_sections\<close> returns exactly the list \<open>chunk_by_paragraphs\<close> returns on the same
  text, so no chunk of the output has strategy \<open>section\<close> or a \<open>section_title\<close>.
\<close>

theorem sections_delegate_without_headers:
  assumes "finditer section_pattern t = []"
      and "finditer numbered_pattern t = []"
      and "finditer header_caps_pattern t = []"
  shows "chunk_by_sections ck t = chunk_by_paragraphs ck t \<and>
         (\<forall>c \<in> set (chunk_by_sections ck t).
            strategy c \<noteq> ''section'' \<and> section_title c = None)"
proof -
  have eq: "chunk_by_sections ck t = chunk_by_paragraphs ck t"
    using unique_matches_none [OF assms] by (simp add: chunk_by_sections_def)
  have "\<forall>c \<in> set (chunk_by_paragraphs ck t). strategy c \<noteq> ''section'' \<and> section_title c = None"
    using chunk_by_paragraphs_fields by fastforce
  with eq show ?thesis by simp
qed

theorem sections_delegate_without_headers_witness:
  "finditer section_pattern ''The parties agree. Fees are due monthly.'' = [] \<and>
   finditer numbered_pattern ''The parties agree. Fees are due monthly.'' = [] \<and>
   finditer header_caps_pattern ''The parties agree. Fees are due monthly.'' = [] \<and>
   chunk_by_sections (word_chunker 50 10) ''The parties agree. Fees are due monthly.''
     = chunk_by_paragraphs (word_chunker 50 10) ''The parties agree. Fees are due monthly.'' \<and>
   strategy (hd (chunk_by_sections (word_chunker 50 10) ''The parties agree. Fees are due monthly.'')) \<noteq> ''section''"
proof -
  have h1: "finditer section_pattern ''The parties agree. Fees are due monthly.'' = []"
    by code_simp
  have h2: "finditer numbered_pattern ''The parties agree. Fees are due monthly.'' = []"
    by code_simp
  have h3: "finditer header_caps_pattern ''The parties agree. Fees are due monthly.'' = []"
    by code_simp
  have h4: "hd (chunk_by_paragraphs (word_chunker 50 10) ''The parties agree. Fees are due monthly.'')
     \<in> set (chunk_by_paragraphs (word_chunker 50 10) ''The parties agree. Fees are due monthly.'')"
    by code_simp
  from sections_delegate_without_headers [OF h1 h2 h3, of "word_chunker 50 10"] h1 h2 h3 h4
  show ?thesis by metis
qed

lemma overlap_loop_spec:
  "overlap_loop ck rest new tot = (seed, tot') \<Longrightarrow>
     \<exists>taken. prefix taken rest \<and> seed = rev taken @ new \<and>
             tot' = tot + group_tokens ck taken \<and>
             (taken \<noteq> [] \<longrightarrow> tot' \<le> chunk_overlap ck)"
proof (induction rest arbitrary: new tot)
  case Nil
  then show ?case by (auto simp: group_tokens_def)
next
  case (Cons old_p rest)
  show ?case
  proof (cases "tot + count_tokens ck (para_text old_p) \<le> chunk_overlap ck")
    case False
    with Cons.prems have "seed = new \<and> tot' = tot" by (simp add: Let_def)
    then have "prefix [] (old_p # rest) \<and> seed = rev [] @ new \<and>
               tot' = tot + group_tokens ck [] \<and> ([] \<noteq> ([]::para_info list) \<longrightarrow> tot' \<le> chunk_overlap ck)"
      by (simp add: group_tokens_def)
    then show ?thesis by blast
  next
    case True
    with Cons.prems have
      "overlap_loop ck rest (old_p # new) (tot + count_tokens ck (para_text old_p)) = (seed, tot')"
      by (simp add: Let_def)
    from Cons.IH [OF this] obtain taken where t:
      "prefix taken rest" "seed = rev taken @ old_p # new"
      "tot' = tot + count_tokens ck (para_text old_p) + group_tokens ck taken"
      "taken \<noteq> [] \<longrightarrow> tot' \<le> chunk_overlap ck"
      by blast
    have le: "tot' \<le> chunk_overlap ck"
    proof (cases "taken = []")
      case True
      with t(3) \<open>tot + count_tokens ck (para_text old_p) \<le> chunk_overlap ck\<close>
      show ?thesis by (simp add: group_tokens_def)
    next
      case False
      with t(4) show ?thesis by simp
    qed
    have "prefix (old_p # taken) (old_p # rest) \<and> seed = rev (old_p # taken) @ new \<and>
          tot' = tot + group_tokens ck (old_p # taken) \<and>
          (old_p # taken \<noteq> [] \<longrightarrow> tot' \<le> chunk_overlap ck)"
      using t le by (simp add: group_tokens_def)
    then show ?thesis by blast
  qed
qed

lemma overlap_seed_spec:
  assumes "overlap_seed ck current = (seed, tot)"
  shows "suffix seed current \<and> tot = group_tokens ck seed \<and>
         (seed = [] \<or> tot \<le> chunk_overlap ck)"
proof -
  from overlap_loop_spec [OF assms [unfolded overlap_seed_def]] obtain taken where t:
    "prefix taken (rev current)" "seed = rev taken" "tot = group_tokens ck taken"
    "taken \<noteq> [] \<longrightarrow> tot \<le> chunk_overlap ck"
    by auto
  from t(1) obtain zs where "rev current = taken @ zs" by (auto simp: prefix_def)
  then have "current = rev zs @ rev taken" by (metis rev_append rev_rev_ident)
  then have "suffix seed current" using t(2) by (simp add: suffix_def)
  moreover have "group_tokens ck seed = group_tokens ck taken"
    using t(2) by (simp add: group_tokens_def rev_map [symmetric])
  ultimately show ?thesis using t by auto
qed

text \<open>
  C4. At a flush boundary of \<open>chunk_by_paragraphs\<close> (the pending group is not empty and the
  next paragraph would exceed the budget) the pending group is emitted as one chunk, and
  what is carried over from it, \<open>new_chunk\<close>, is a suffix of its list of whole paragraphs:
  no paragraph is split. \<open>overlap_tokens\<close> is the summed token count of the paragraphs
  carried over, and it is at most \<open>chunk_overlap\<close>, or nothing is carried over at all.
  The carried paragraphs open the next pending group (or, before an oversized paragraph,
  are emitted as a chunk of their own).
\<close>

theorem overlap_is_suffix_of_whole_paragraphs:
  assumes over: "current_tokens st + count_tokens ck (para_text para) > chunk_size ck"
      and pending: "current_chunk st \<noteq> []"
      and seed: "overlap_seed ck (current_chunk st) = (new_chunk, overlap_tokens)"
  shows "suffix new_chunk (current_chunk st) \<and>
         overlap_tokens = group_tokens ck new_chunk \<and>
         (new_chunk = [] \<or> overlap_tokens \<le> chunk_overlap ck) \<and>
         (if count_tokens ck (para_text para) > chunk_size ck
          then chunks (para_step ck st para)
                 = chunks st @ [paragraph_chunk ck (current_chunk st)]
                   @ (if new_chunk \<noteq> [] then [paragraph_chunk ck new_chunk] else [])
                   @ subsplit_chunks ck para \<and>
               current_chunk (para_step ck st para) = []
          else chunks (para_step ck st para)
                 = chunks st @ [paragraph_chunk ck (current_chunk st)] \<and>
               current_chunk (para_step ck st para) = new_chunk @ [para] \<and>
               current_tokens (para_step ck st para)
                 = overlap_tokens + count_tokens ck (para_text para))"
  using overlap_seed_spec [OF seed] over pending seed
  by (auto simp: para_step_def Let_def)

theorem overlap_is_suffix_of_whole_paragraphs_witness:
  "current_tokens \<lparr> chunks = [],
       current_chunk = [\<lparr> para_text = ''a b c d e'', para_start = 0 \<rparr>,
                        \<lparr> para_text = ''f g h i j'', para_start = 11 \<rparr>],
       current_tokens = 10 \<rparr>
     + count_tokens (word_chunker 10 5) (para_text \<lparr> para_text = ''k l m n o p q r'', para_start = 22 \<rparr>)
     > chunk_size (word_chunker 10 5) \<and>
   current_chunk \<lparr> chunks = [],
       current_chunk = [\<lparr> para_text = ''a b c d e'', para_start = 0 \<rparr>,
                        \<lparr> para_text = ''f g h i j'', para_start = 11 \<rparr>],
       current_tokens = 10 \<rparr> \<noteq> [] \<and>
   overlap_seed (word_chunker 10 5)
       [\<lparr> para_text = ''a b c d e'', para_start = 0 \<rparr>,
        \<lparr> para_text = ''f g h i j'', para_start = 11 \<rparr>]
     = ([\<lparr> para_text = ''f g h i j'', para_start = 11 \<rparr>], 5) \<and>
   suffix [\<lparr> para_text = ''f g h i j'', para_start = 11 \<rparr>]
       [\<lparr> para_text = ''a b c d e'', para_start = 0 \<rparr>,
        \<lparr> para_text = ''f g h i j'', para_start = 11 \<rparr>] \<and>
   (5::int) = group_tokens (word_chunker 10 5) [\<lparr> para_text = ''f g h i j'', para_start = 11 \<rparr>] \<and>
   (5::int) \<le> chunk_overlap (word_chunker 10 5)"
proof -
  let ?st = "\<lparr> chunks = [],
       current_chunk = [\<lparr> para_text = ''a b c d e'', para_start = 0 \<rparr>,
                        \<lparr> para_text = ''f g h i j'', para_start = 11 \<rparr>],
       current_tokens = 10 \<rparr>"
  let ?para = "\<lparr> para_text = ''k l m n o p q r'', para_start = 22 \<rparr>"
  let ?ck = "word_chunker 10 5"
  have h1: "current_tokens ?st + count_tokens ?ck (para_text ?para) > chunk_size ?ck"
    by code_simp
  have h2: "current_chunk ?st \<noteq> []"
    by simp
  have h3: "overlap_seed ?ck (current_chunk ?st)
              = ([\<lparr> para_text = ''f g h i j'', para_start = 11 \<rparr>], 5)"
    by code_simp
  from overlap_is_suffix_of_whole_paragraphs [OF h1 h2 h3] h1 h2 h3
  show ?thesis by auto
qed

subsection \<open>Budget and offsets\<close>

text \<open>
  What holds of every chunk of the section splitter: a \<open>section\<close> chunk is within the
  budget, and \<open>section\<close> and \<open>paragraph\<close> chunks have consistent offsets.
\<close>

lemma section_chunks_fields:
  assumes "c \<in> set (section_chunks ck t ms)"
  shows "strategy c = ''section'' \<and> token_count c \<le> chunk_size ck \<and>
           end_char c - start_char c = int (length (chunk_text c)) \<or>
         strategy c = ''paragraph'' \<and>
           end_char c - start_char c = int (length (chunk_text c)) \<or>
         strategy c = ''paragraph_subsplit''"
  using assms
proof (induction ms)
  case Nil
  then show ?case by simp
next
  case (Cons m ms)
  let ?s = "m_start m"
  let ?e = "case ms of [] \<Rightarrow> length t | m' # _ \<Rightarrow> m_start m'"
  let ?txt = "take (?e - ?s) (drop ?s t)"
  from Cons.prems consider
      (sub) sc where "count_tokens ck ?txt > chunk_size ck"
        "sc \<in> set (chunk_by_paragraphs ck ?txt)"
        "c = sc\<lparr> section_title := Some (title m),
                  start_char := start_char sc + int ?s,
                  end_char := end_char sc + int ?s \<rparr>"
    | (one) "\<not> count_tokens ck ?txt > chunk_size ck"
        "c = create_chunk_dict ck ?txt (int ?s) ''section'' (Some (title m))"
    | (rest) "c \<in> set (section_chunks ck t ms)"
    by (auto simp: Let_def split: if_splits)
  then show ?case
  proof cases
    case sub
    from chunk_by_paragraphs_fields [OF sub(2)] sub(3) show ?thesis by auto
  next
    case one
    then show ?thesis by (simp add: create_chunk_dict_def)
  next
    case rest
    then show ?thesis by (rule Cons.IH)
  qed
qed

lemma chunk_by_sections_fields:
  assumes "c \<in> set (chunk_by_sections ck t)"
  shows "strategy c = ''section'' \<and> token_count c \<le> chunk_size ck \<and>
           end_char c - start_char c = int (length (chunk_text c)) \<or>
         strategy c = ''paragraph'' \<and>
           end_char c - start_char c = int (length (chunk_text c)) \<or>
         strategy c = ''paragraph_subsplit''"
proof -
  from assms consider
      (para) t' where "c \<in> set (chunk_by_paragraphs ck t')"
    | (sect) "c \<in> set (section_chunks ck t (unique_matches t))"
    by (auto simp: chunk_by_sections_def Let_def split: if_splits)
  then show ?thesis
  proof cases
    case para
    from chunk_by_paragraphs_fields [OF this] show ?thesis by auto
  next
    case sect
    then show ?thesis by (rule section_chunks_fields)
  qed
qed

text \<open>
  A sub-chunk of an oversized paragraph never has the sentinel as \<open>start_char\<close>, and its
  \<open>end_char\<close> is the one computed from the sentinel.
\<close>

lemma subsplit_chunk_offsets:
  assumes "c \<in> set (chunk_by_paragraphs ck t)" and "strategy c = ''paragraph_subsplit''"
  shows "0 \<le> start_char c \<and> end_char c = int (length (chunk_text c)) - 1"
proof -
  from para_loop_chunks [OF assms(1) [unfolded chunk_by_paragraphs_def]]
  consider (g) g where "c = paragraph_chunk ck g"
    | (sub) para where "para \<in> set (para_infos_from t 0 (re_split paragraph_break t))"
        "c \<in> set (subsplit_chunks ck para)"
    by blast
  then show ?thesis
  proof cases
    case g
    with assms(2) paragraph_chunk_fields [of ck g] show ?thesis by simp
  next
    case sub
    from subsplit_chunk_fields [OF sub(2)] para_infos_from_start [OF sub(1)]
    show ?thesis by simp
  qed
qed

text \<open>
  C1 fails on the code (the part on \<open>section\<close> chunks is \<open>chunk_by_sections_fields\<close>). With \<open>chunk_size = 10\<close> and \<open>chunk_overlap = 5\<close>, counting words,
  the three paragraphs of 5, 5 and 8 words give two chunks of strategy \<open>paragraph\<close>: the
  first two paragraphs (10 tokens), and then the second paragraph, carried over as
  overlap, together with the third: 13 tokens, above \<open>chunk_size\<close>.
\<close>

theorem paragraph_chunk_over_budget:
  "map (\<lambda>c. (strategy c, token_count c))
       (chunk_by_paragraphs (word_chunker 10 5) three_paragraphs)
     = [(''paragraph'', 10), (''paragraph'', 13)] \<and>
   chunk_size (word_chunker 10 5) = 10"
  by code_simp

text \<open>
  C2 fails on the code. A paragraph of 8 words with \<open>chunk_size = 5\<close> is split by tokens;
  each sub-chunk gets the paragraph's start 0 as \<open>start_char\<close> but keeps the \<open>end_char\<close>
  computed from the sentinel -1, so \<open>end_char - start_char\<close> is the length of the text
  minus 1.
\<close>

theorem subsplit_offsets_inconsistent:
  "map (\<lambda>c. (strategy c, start_char c, end_char c, length (chunk_text c)))
       (chunk_by_paragraphs (word_chunker 5 1) ''a b c d e f g h'')
     = [(''paragraph_subsplit'', 0, 8, 9), (''paragraph_subsplit'', 0, 6, 7)]"
  by code_simp




subsection \<open>Orchestrator\<close>

lemma optimize_chunks_filter:
  "optimize_chunks ds = Inr out \<Longrightarrow>
     out = filter (\<lambda>d. \<exists>v. d ''token_count'' = Some v \<and> py_lt_int v 10 = Inr False) ds"
proof (induction ds arbitrary: out)
  case Nil
  then show ?case by simp
next
  case (Cons d ds)
  from Cons.prems obtain v small kept where
    v: "d ''token_count'' = Some v" and
    small: "py_lt_int v 10 = Inr small" and
    kept: "optimize_chunks ds = Inr kept" and
    out: "out = (if small then kept else d # kept)"
    by (auto split: option.splits sum.splits)
  from Cons.IH [OF kept] v small out show ?case by auto
qed

lemma finalize_from_nth:
  "d \<in> set (finalize_from md k ds) \<Longrightarrow>
     \<exists>j < length ds. d = finalize_chunk md (k + j) (ds ! j)"
proof (induction ds arbitrary: k)
  case Nil
  then show ?case by simp
next
  case (Cons a ds)
  from Cons.prems have "d = finalize_chunk md k a \<or> d \<in> set (finalize_from md (Suc k) ds)"
    by simp
  then show ?case
  proof
    assume "d = finalize_chunk md k a"
    then have "0 < length (a # ds) \<and> d = finalize_chunk md (k + 0) ((a # ds) ! 0)" by simp
    then show ?thesis by blast
  next
    assume "d \<in> set (finalize_from md (Suc k) ds)"
    from Cons.IH [OF this] obtain j where "j < length ds" "d = finalize_chunk md (Suc k + j) (ds ! j)"
      by blast
    then have "Suc j < length (a # ds) \<and> d = finalize_chunk md (k + Suc j) ((a # ds) ! Suc j)"
      by simp
    then show ?thesis by blast
  qed
qed

lemma finalize_chunk_token_count:
  "md ''token_count'' = None \<Longrightarrow>
     finalize_chunk md i (to_dict c) ''token_count'' = Some (PInt (token_count c))"
  by (simp add: finalize_chunk_def to_dict_def Let_def map_add_def split: option.splits)




lemma finalize_chunk_metadata:
  assumes "md k = Some v" and "k \<noteq> ''chunk_index''" and "k \<noteq> ''chunk_id''"
  shows "finalize_chunk md i d k = Some v"
  using assms by (simp add: finalize_chunk_def Let_def)

text \<open>
  C8 as stated fails: \<open>chunk_index\<close> and \<open>chunk_id\<close> are assigned after the caller metadata
  is merged, so a caller value under either key is replaced.
\<close>

theorem metadata_overwrite_counterexample:
  "\<not> (\<forall>k v. [''chunk_id'' \<mapsto> PStr ''doc-1''] k = Some v \<longrightarrow>
         (\<forall>d \<in> set (projr (smart_chunk (word_chunker 50 10)
                  ''The parties agree that the fees are due monthly in advance.''
                  [''chunk_id'' \<mapsto> PStr ''doc-1''])).
            d k = Some v))"
proof
  let ?r = "smart_chunk (word_chunker 50 10)
              ''The parties agree that the fees are due monthly in advance.''
              [''chunk_id'' \<mapsto> PStr ''doc-1'']"
  assume a: "\<forall>k v. [''chunk_id'' \<mapsto> PStr ''doc-1''] k = Some v \<longrightarrow>
               (\<forall>d \<in> set (projr ?r). d k = Some v)"
  have len: "length (projr ?r) = 1" by code_simp
  then have "hd (projr ?r) \<in> set (projr ?r)"
    by (cases "projr ?r") auto
  with a have "hd (projr ?r) ''chunk_id'' = Some (PStr ''doc-1'')" by simp
  moreover have "hd (projr ?r) ''chunk_id'' = Some (PStr ''chnk_0_0'')" by code_simp
  ultimately show False by simp
qed

text \<open>
  C8, amended. Every key of the caller metadata other than \<open>chunk_index\<close> and \<open>chunk_id\<close>
  maps, in every chunk \<open>smart_chunk\<close> returns, to exactly the caller-supplied value,
  whatever the chunk held under that key before.
\<close>

theorem metadata_overwrites_other_keys:
  assumes "smart_chunk ck t md = Inr out"
      and "md k = Some v"
      and "k \<noteq> ''chunk_index''" and "k \<noteq> ''chunk_id''"
  shows "\<forall>d \<in> set out. d k = Some v"
proof
  fix d assume "d \<in> set out"
  with optimize_chunks_filter [OF assms(1) [unfolded smart_chunk_def]]
  have "d \<in> set (finalize_from md 0 (map to_dict (chunk_by_sections ck t)))" by simp
  from finalize_from_nth [OF this] obtain j where
    "d = finalize_chunk md (0 + j) (map to_dict (chunk_by_sections ck t) ! j)" by blast
  then show "d k = Some v"
    using finalize_chunk_metadata [of md k v] assms(2-4) by simp
qed

theorem metadata_overwrites_other_keys_witness:
  "smart_chunk (word_chunker 50 10)
       ''The parties agree that the fees are due monthly in advance.''
       [''strategy'' \<mapsto> PStr ''manual'']
     = Inr (projr (smart_chunk (word_chunker 50 10)
              ''The parties agree that the fees are due monthly in advance.''
              [''strategy'' \<mapsto> PStr ''manual''])) \<and>
   [''strategy'' \<mapsto> PStr ''manual''] ''strategy'' = Some (PStr ''manual'') \<and>
   ''strategy'' \<noteq> ''chunk_index'' \<and> ''strategy'' \<noteq> ''chunk_id'' \<and>
   length (projr (smart_chunk (word_chunker 50 10)
              ''The parties agree that the fees are due monthly in advance.''
              [''strategy'' \<mapsto> PStr ''manual''])) = 1 \<and>
   hd (projr (smart_chunk (word_chunker 50 10)
              ''The parties agree that the fees are due monthly in advance.''
              [''strategy'' \<mapsto> PStr ''manual''])) ''strategy'' = Some (PStr ''manual'')"
proof -
  let ?md = "[''strategy'' \<mapsto> PStr ''manual'']"
  let ?r = "smart_chunk (word_chunker 50 10)
              ''The parties agree that the fees are due monthly in advance.'' ?md"
  have "\<not> isl ?r" by code_simp
  then have h: "?r = Inr (projr ?r)" by simp
  have k: "?md ''strategy'' = Some (PStr ''manual'')" by simp
  have n1: "''strategy'' \<noteq> ''chunk_index''" by simp
  have n2: "''strategy'' \<noteq> ''chunk_id''" by simp
  have len: "length (projr ?r) = 1" by code_simp
  then have "hd (projr ?r) \<in> set (projr ?r)"
    by (cases "projr ?r") auto
  with metadata_overwrites_other_keys [OF h k n1 n2] h k n1 n2 len show ?thesis by blast
qed

subsection \<open>Chunk identifiers\<close>

lemma char_of_digit_inj:
  "a < 10 \<Longrightarrow> b < 10 \<Longrightarrow> (char_of (48 + a :: nat) :: char) = char_of (48 + b) \<Longrightarrow> a = b"
proof -
  assume a: "a < 10" and b: "b < 10" and eq: "(char_of (48 + a :: nat) :: char) = char_of (48 + b)"
  from eq have "(of_char (char_of (48 + a) :: char) :: nat) = of_char (char_of (48 + b) :: char)"
    by simp
  then have "(48 + a) mod 256 = (48 + b) mod 256"
    by (simp only: of_char_of)
  with a b show "a = b" by simp
qed

lemma char_of_digit_not_underscore:
  "a < 10 \<Longrightarrow> (char_of (48 + a :: nat) :: char) \<noteq> CHR ''_''"
proof
  assume a: "a < 10" and eq: "(char_of (48 + a :: nat) :: char) = CHR ''_''"
  from eq have "(of_char (char_of (48 + a) :: char) :: nat) = of_char (CHR ''_'')"
    by simp
  then have "(48 + a) mod 256 = 95"
    by (simp only: of_char_of) simp
  with a show False by simp
qed

lemma str_of_nat_small: "n < 10 \<Longrightarrow> str_of_nat n = [char_of (48 + n)]"
  by (subst str_of_nat.simps) simp

lemma str_of_nat_large:
  "\<not> n < 10 \<Longrightarrow> str_of_nat n = str_of_nat (n div 10) @ [char_of (48 + n mod 10)]"
  by (subst str_of_nat.simps) simp

lemma str_of_nat_not_empty: "str_of_nat n \<noteq> []"
  by (cases "n < 10") (simp_all add: str_of_nat_small str_of_nat_large)

lemma str_of_nat_no_underscore: "CHR ''_'' \<notin> set (str_of_nat n)"
proof (induction n rule: str_of_nat.induct)
  case (1 n)
  show ?case
  proof (cases "n < 10")
    case True
    then show ?thesis
      using char_of_digit_not_underscore [of n] by (auto simp: str_of_nat_small)
  next
    case False
    have "n mod 10 < 10" by simp
    from char_of_digit_not_underscore [OF this] "1.IH" [OF False] False show ?thesis
      by (auto simp: str_of_nat_large)
  qed
qed

lemma str_of_nat_inj: "str_of_nat n = str_of_nat m \<Longrightarrow> n = m"
proof (induction n arbitrary: m rule: str_of_nat.induct)
  case (1 n)
  show ?case
  proof (cases "n < 10")
    case n: True
    show ?thesis
    proof (cases "m < 10")
      case True
      with n "1.prems" have "(char_of (48 + n) :: char) = char_of (48 + m)"
        by (simp add: str_of_nat_small)
      with n True show ?thesis by (rule char_of_digit_inj)
    next
      case False
      with n "1.prems" have "[char_of (48 + n)] = str_of_nat (m div 10) @ [char_of (48 + m mod 10)]"
        by (simp add: str_of_nat_small str_of_nat_large)
      then have "str_of_nat (m div 10) = []" by simp
      with str_of_nat_not_empty show ?thesis by blast
    qed
  next
    case n: False
    show ?thesis
    proof (cases "m < 10")
      case True
      with n "1.prems" have "str_of_nat (n div 10) @ [char_of (48 + n mod 10)] = [char_of (48 + m)]"
        by (simp add: str_of_nat_small str_of_nat_large)
      then have "str_of_nat (n div 10) = []" by simp
      with str_of_nat_not_empty show ?thesis by blast
    next
      case False
      with n "1.prems" have
        "str_of_nat (n div 10) @ [char_of (48 + n mod 10)]
           = str_of_nat (m div 10) @ [char_of (48 + m mod 10)]"
        by (simp add: str_of_nat_large)
      then have d: "str_of_nat (n div 10) = str_of_nat (m div 10)"
        and l: "(char_of (48 + n mod 10) :: char) = char_of (48 + m mod 10)"
        by simp_all
      from "1.IH" [OF n d] have q: "n div 10 = m div 10" .
      have "n mod 10 < 10" "m mod 10 < 10" by simp_all
      then have r: "n mod 10 = m mod 10" using l by (rule char_of_digit_inj)
      have "n = n div 10 * 10 + n mod 10" by simp
      also have "\<dots> = m div 10 * 10 + m mod 10" using q r by simp
      also have "\<dots> = m" by simp
      finally show ?thesis .
    qed
  qed
qed

lemma split_at_underscore:
  "x @ CHR ''_'' # a = y @ CHR ''_'' # b \<Longrightarrow>
     CHR ''_'' \<notin> set x \<Longrightarrow> CHR ''_'' \<notin> set y \<Longrightarrow> x = y"
proof (induction x arbitrary: y)
  case Nil
  then show ?case by (cases y) auto
next
  case (Cons c x)
  then show ?case by (cases y) auto
qed

lemma chunk_id_index_inj:
  assumes "''chnk_'' @ str_of_nat i @ ''_'' @ a = ''chnk_'' @ str_of_nat j @ ''_'' @ b"
  shows "i = j"
proof -
  from assms have "str_of_nat i @ CHR ''_'' # a = str_of_nat j @ CHR ''_'' # b" by simp
  from split_at_underscore [OF this str_of_nat_no_underscore str_of_nat_no_underscore]
  show ?thesis by (rule str_of_nat_inj)
qed

lemma finalize_chunk_id:
  "\<exists>s. finalize_chunk md i d ''chunk_id'' = Some (PStr (''chnk_'' @ str_of_nat i @ ''_'' @ s))"
  by (simp add: finalize_chunk_def Let_def)

lemma finalize_from_ids_distinct:
  "distinct (map (\<lambda>d. d ''chunk_id'') (finalize_from md k ds))"
proof (induction ds arbitrary: k)
  case Nil
  show ?case by simp
next
  case (Cons a ds)
  have "finalize_chunk md k a ''chunk_id''
          \<notin> (\<lambda>d. d ''chunk_id'') ` set (finalize_from md (Suc k) ds)"
  proof
    assume "finalize_chunk md k a ''chunk_id''
              \<in> (\<lambda>d. d ''chunk_id'') ` set (finalize_from md (Suc k) ds)"
    then obtain d where d: "d \<in> set (finalize_from md (Suc k) ds)"
      and eq: "finalize_chunk md k a ''chunk_id'' = d ''chunk_id''" by auto
    from finalize_from_nth [OF d] obtain j where
      dj: "d = finalize_chunk md (Suc k + j) (ds ! j)" by blast
    from finalize_chunk_id [of md k a] obtain s where
      s: "finalize_chunk md k a ''chunk_id'' = Some (PStr (''chnk_'' @ str_of_nat k @ ''_'' @ s))"
      by blast
    from finalize_chunk_id [of md "Suc k + j" "ds ! j"] obtain s' where
      s': "finalize_chunk md (Suc k + j) (ds ! j) ''chunk_id''
             = Some (PStr (''chnk_'' @ str_of_nat (Suc k + j) @ ''_'' @ s'))"
      by blast
    from eq dj s s' have
      "''chnk_'' @ str_of_nat k @ ''_'' @ s = ''chnk_'' @ str_of_nat (Suc k + j) @ ''_'' @ s'"
      by simp
    from chunk_id_index_inj [OF this] show False by simp
  qed
  with Cons.IH [of "Suc k"] show ?case by simp
qed

lemma to_dict_start_char: "to_dict c ''start_char'' = Some (PInt (start_char c))"
  by (simp add: to_dict_def Let_def split: option.splits)

lemma finalize_chunk_derived:
  assumes "d ''start_char'' \<noteq> None"
  shows "\<exists>v. finalize_chunk md i d ''chunk_index'' = Some (PInt (int i)) \<and>
             finalize_chunk md i d ''start_char'' = Some v \<and>
             finalize_chunk md i d ''chunk_id''
               = Some (PStr (''chnk_'' @ str_of_nat i @ ''_'' @ py_str v))"
proof (cases "md ''start_char''")
  case None
  with assms show ?thesis
    by (auto simp: finalize_chunk_def Let_def map_add_def)
next
  case (Some v)
  then show ?thesis
    by (auto simp: finalize_chunk_def Let_def map_add_def)
qed

text \<open>
  C9. The \<open>chunk_id\<close> values of the chunks one call of \<open>smart_chunk\<close> returns are pairwise
  distinct, and each returned chunk is a chunk of the section splitter at some position
  \<open>i\<close>, finalized with that position: its \<open>chunk_index\<close> is \<open>i\<close>, the index before
  filtering, and its \<open>chunk_id\<close> is \<open>chnk_\<close>, the decimal digits of \<open>i\<close>, \<open>_\<close> and its
  formatted \<open>start_char\<close>.
\<close>

theorem chunk_ids_distinct:
  assumes "smart_chunk ck t md = Inr out"
  shows "distinct (map (\<lambda>d. d ''chunk_id'') out) \<and>
         (\<forall>d \<in> set out. \<exists>i v.
            i < length (chunk_by_sections ck t) \<and>
            d = finalize_chunk md i (to_dict (chunk_by_sections ck t ! i)) \<and>
            d ''chunk_index'' = Some (PInt (int i)) \<and>
            d ''start_char'' = Some v \<and>
            d ''chunk_id'' = Some (PStr (''chnk_'' @ str_of_nat i @ ''_'' @ py_str v)))"
proof
  let ?ds = "map to_dict (chunk_by_sections ck t)"
  let ?keep = "\<lambda>d. \<exists>v. d ''token_count'' = Some v \<and> py_lt_int v 10 = Inr False"
  have out: "out = filter ?keep (finalize_from md 0 ?ds)"
    using optimize_chunks_filter [OF assms [unfolded smart_chunk_def]] .
  show "distinct (map (\<lambda>d. d ''chunk_id'') out)"
    unfolding out using finalize_from_ids_distinct [of md 0 ?ds]
    by (rule distinct_map_filter)
  show "\<forall>d \<in> set out. \<exists>i v.
            i < length (chunk_by_sections ck t) \<and>
            d = finalize_chunk md i (to_dict (chunk_by_sections ck t ! i)) \<and>
            d ''chunk_index'' = Some (PInt (int i)) \<and>
            d ''start_char'' = Some v \<and>
            d ''chunk_id'' = Some (PStr (''chnk_'' @ str_of_nat i @ ''_'' @ py_str v))"
  proof
    fix d assume "d \<in> set out"
    with out have "d \<in> set (finalize_from md 0 ?ds)" by simp
    from finalize_from_nth [OF this] obtain j where
      j: "j < length (chunk_by_sections ck t)"
      and d: "d = finalize_chunk md j (to_dict (chunk_by_sections ck t ! j))"
      by auto
    have "to_dict (chunk_by_sections ck t ! j) ''start_char'' \<noteq> None"
      by (simp add: to_dict_start_char)
    from finalize_chunk_derived [of "to_dict (chunk_by_sections ck t ! j)" md j] this j d
    show "\<exists>i v.
            i < length (chunk_by_sections ck t) \<and>
            d = finalize_chunk md i (to_dict (chunk_by_sections ck t ! i)) \<and>
            d ''chunk_index'' = Some (PInt (int i)) \<and>
            d ''start_char'' = Some v \<and>
            d ''chunk_id'' = Some (PStr (''chnk_'' @ str_of_nat i @ ''_'' @ py_str v))"
      by blast
  qed
qed

theorem chunk_ids_distinct_witness:
  "smart_chunk (word_chunker 10 5) three_paragraphs Map.empty
     = Inr (projr (smart_chunk (word_chunker 10 5) three_paragraphs Map.empty)) \<and>
   length (projr (smart_chunk (word_chunker 10 5) three_paragraphs Map.empty)) = 2 \<and>
   distinct (map (\<lambda>d. d ''chunk_id'')
               (projr (smart_chunk (word_chunker 10 5) three_paragraphs Map.empty))) \<and>
   (projr (smart_chunk (word_chunker 10 5) three_paragraphs Map.empty) ! 1) ''chunk_id''
     = Some (PStr ''chnk_1_11'')"
proof -
  let ?r = "smart_chunk (word_chunker 10 5) three_paragraphs Map.empty"
  have "\<not> isl ?r" by code_simp
  then have h: "?r = Inr (projr ?r)" by simp
  have len: "length (projr ?r) = 2" by code_simp
  have id1: "(projr ?r ! 1) ''chunk_id'' = Some (PStr ''chnk_1_11'')" by code_simp
  from chunk_ids_distinct [OF h] h len id1 show ?thesis by blast
qed

subsection \<open>Blank input\<close>

lemma rx_search_none:
  "(\<And>j. rx_ends r s j = []) \<Longrightarrow> rx_search r s i = None"
proof (induction r s i rule: rx_search.induct)
  case (1 r s i)
  show ?case
  proof (cases "i > length s")
    case True
    then show ?thesis by (subst rx_search.simps) simp
  next
    case False
    have "rx_ends r s i = []" by (rule "1.prems")
    with False "1.IH" "1.prems" show ?thesis
      by (subst rx_search.simps) simp
  qed
qed

lemma finditer_none:
  "(\<And>j. rx_ends r s j = []) \<Longrightarrow> finditer r s = []"
  by (simp add: finditer_def finditer_from.simps rx_search_none)

lemma str_fails_on_blank:
  assumes "\<forall>c \<in> set s. is_space c" and "w \<noteq> []" and "\<not> is_space (hd w)"
  shows "rx_ends (Str w) s j = []"
proof (rule ccontr)
  assume "rx_ends (Str w) s j \<noteq> []"
  then have "take (length w) (drop j s) = w" by (simp split: if_splits)
  then have "set w \<subseteq> set s"
    by (metis set_take_subset set_drop_subset subset_trans)
  with assms(2) have "hd w \<in> set s" by (cases w) auto
  with assms(1,3) show False by blast
qed

lemma cls_fails_on_blank:
  assumes "\<forall>c \<in> set s. is_space c" and "\<And>c. is_space c \<Longrightarrow> \<not> P c"
  shows "rx_ends (Cls P) s j = []"
  using assms by auto

lemma seq_head_fails:
  "(\<And>j. rx_ends b s j = []) \<Longrightarrow> rx_ends (Seq a (Seq b r)) s i = []"
  by simp

lemma space_not_digit: "is_space c \<Longrightarrow> \<not> is_digit c"
  by (auto simp: is_space_def is_digit_def Let_def)

lemma space_not_upper: "is_space c \<Longrightarrow> \<not> is_upper c"
  by (auto simp: is_space_def is_upper_def Let_def)

lemma section_pattern_blank:
  assumes "\<forall>c \<in> set s. is_space c"
  shows "rx_ends section_pattern s i = []"
proof -
  have s1: "\<And>j. rx_ends (Str ''SECTION'') s j = []"
    by (rule str_fails_on_blank [OF assms]) (simp_all add: is_space_def)
  have s2: "\<And>j. rx_ends (Str ''ARTICLE'') s j = []"
    by (rule str_fails_on_blank [OF assms]) (simp_all add: is_space_def)
  have "\<And>j. rx_ends (Alt (Str ''SECTION'') (Str ''ARTICLE'')) s j = []"
    by (simp only: rx_ends.simps(6) s1 s2 append_Nil)
  then show ?thesis
    unfolding section_pattern_def seqs.simps by (rule seq_head_fails)
qed

lemma numbered_pattern_blank:
  assumes "\<forall>c \<in> set s. is_space c"
  shows "rx_ends numbered_pattern s i = []"
proof -
  have "\<And>j. rx_ends (Plus_rx (Cls is_digit)) s j = []"
    using cls_fails_on_blank [OF assms, of is_digit] space_not_digit
    by (simp add: Plus_rx_def)
  then show ?thesis
    unfolding numbered_pattern_def seqs.simps by (rule seq_head_fails)
qed

lemma header_caps_pattern_blank:
  assumes "\<forall>c \<in> set s. is_space c"
  shows "rx_ends header_caps_pattern s i = []"
proof -
  have "\<And>j. rx_ends (Cls is_upper) s j = []"
    using cls_fails_on_blank [OF assms, of is_upper] space_not_upper by simp
  then show ?thesis
    unfolding header_caps_pattern_def seqs.simps by (rule seq_head_fails)
qed

lemma blank_text_has_no_header:
  assumes "\<forall>c \<in> set t. is_space c"
  shows "chunk_by_sections ck t = chunk_by_paragraphs ck t"
proof -
  have "unique_matches t = []"
    by (rule unique_matches_none)
       (simp_all add: finditer_none section_pattern_blank numbered_pattern_blank
          header_caps_pattern_blank assms)
  then show ?thesis by (simp add: chunk_by_sections_def)
qed

lemma optimize_chunks_all_small:
  "\<forall>d \<in> set ds. \<exists>n. d ''token_count'' = Some (PInt n) \<and> n < 10 \<Longrightarrow>
     optimize_chunks ds = Inr []"
  by (induction ds) (auto simp: py_lt_int_def)

lemma smart_chunk_all_small:
  assumes "md ''token_count'' = None"
      and "\<forall>c \<in> set (chunk_by_sections ck t). token_count c < 10"
  shows "smart_chunk ck t md = Inr []"
proof -
  let ?ds = "finalize_from md 0 (map to_dict (chunk_by_sections ck t))"
  have "\<forall>d \<in> set ?ds. \<exists>n. d ''token_count'' = Some (PInt n) \<and> n < 10"
  proof
    fix d assume "d \<in> set ?ds"
    from finalize_from_nth [OF this] obtain j where
      j: "j < length (chunk_by_sections ck t)"
      and d: "d = finalize_chunk md j (to_dict (chunk_by_sections ck t ! j))"
      by auto
    from j assms(2) have "token_count (chunk_by_sections ck t ! j) < 10" by simp
    with d finalize_chunk_token_count [of md j "chunk_by_sections ck t ! j"] assms(1)
    show "\<exists>n. d ''token_count'' = Some (PInt n) \<and> n < 10" by simp
  qed
  then show ?thesis
    unfolding smart_chunk_def by (rule optimize_chunks_all_small)
qed

lemma chunk_by_paragraphs_empty:
  assumes "0 \<le> chunk_size ck"
  shows "chunk_by_paragraphs ck [] = [create_chunk_dict ck [] 0 ''paragraph'' None]"
proof -
  have "para_infos_from [] 0 (re_split paragraph_break [])
          = [\<lparr> para_text = [], para_start = 0 \<rparr>]"
    by code_simp
  with assms show ?thesis
    by (simp add: chunk_by_paragraphs_def para_loop_def para_step_def count_tokens_def
          paragraph_chunk_def Let_def)
qed

text \<open>
  C3 as stated fails. A caller \<open>token_count\<close> replaces the chunk's own before the filter
  reads it: with a string the comparison raises, with 10 the empty chunk of the empty text
  is kept. And a whitespace-only text is filtered by its token count alone: ten spaces,
  counted by characters, are returned as a chunk.
\<close>

theorem blank_input_counterexample:
  "smart_chunk (word_chunker 1000 200) [] [''token_count'' \<mapsto> PStr ''12''] = Inl TypeError \<and>
   smart_chunk (word_chunker 1000 200) [] [''token_count'' \<mapsto> PInt 10] \<noteq> Inr [] \<and>
   smart_chunk (char_chunker 1000 200) ''          '' Map.empty \<noteq> Inr []"
proof -
  have "isl (smart_chunk (word_chunker 1000 200) [] [''token_count'' \<mapsto> PStr ''12''])"
    by code_simp
  moreover have
    "projl (smart_chunk (word_chunker 1000 200) [] [''token_count'' \<mapsto> PStr ''12''])
       = TypeError"
    by code_simp
  ultimately have a:
    "smart_chunk (word_chunker 1000 200) [] [''token_count'' \<mapsto> PStr ''12''] = Inl TypeError"
    by (metis sum.collapse(1))
  have "length (projr (smart_chunk (word_chunker 1000 200) []
                         [''token_count'' \<mapsto> PInt 10])) = 1"
    by code_simp
  then have b: "smart_chunk (word_chunker 1000 200) [] [''token_count'' \<mapsto> PInt 10] \<noteq> Inr []"
    by auto
  have "length (projr (smart_chunk (char_chunker 1000 200) ''          '' Map.empty)) = 1"
    by code_simp
  then have c: "smart_chunk (char_chunker 1000 200) ''          '' Map.empty \<noteq> Inr []"
    by auto
  from a b c show ?thesis by simp
qed

text \<open>
  C3, amended. Let the caller metadata have no key \<open>token_count\<close>. Then, for the empty
  text and \<open>chunk_size \<ge> 0\<close>, \<open>smart_chunk\<close> returns the empty list and does not raise; and
  so it does for a whitespace-only text all of whose paragraph chunks have fewer than 10
  tokens (such a text has no header and goes to the paragraph splitter as a whole).
\<close>

theorem smart_chunk_blank_input:
  assumes "md ''token_count'' = None"
  shows "(0 \<le> chunk_size ck \<longrightarrow> smart_chunk ck [] md = Inr []) \<and>
         ((\<forall>c \<in> set t. is_space c) \<and>
          (\<forall>c \<in> set (chunk_by_paragraphs ck t). token_count c < 10)
            \<longrightarrow> smart_chunk ck t md = Inr [])"
proof (intro conjI impI)
  assume "0 \<le> chunk_size ck"
  then have "\<forall>c \<in> set (chunk_by_sections ck []). token_count c < 10"
    by (simp add: blank_text_has_no_header chunk_by_paragraphs_empty
          create_chunk_dict_def count_tokens_def)
  with assms show "smart_chunk ck [] md = Inr []"
    by (rule smart_chunk_all_small)
next
  assume "(\<forall>c \<in> set t. is_space c) \<and>
          (\<forall>c \<in> set (chunk_by_paragraphs ck t). token_count c < 10)"
  then have "\<forall>c \<in> set (chunk_by_sections ck t). token_count c < 10"
    by (simp add: blank_text_has_no_header)
  with assms show "smart_chunk ck t md = Inr []"
    by (rule smart_chunk_all_small)
qed

theorem smart_chunk_blank_input_witness:
  "[''source'' \<mapsto> PStr ''lease.pdf''] ''token_count'' = None \<and>
   0 \<le> chunk_size (word_chunker 1000 200) \<and>
   smart_chunk (word_chunker 1000 200) [] [''source'' \<mapsto> PStr ''lease.pdf''] = Inr [] \<and>
   list_all is_space ''  \<newline>\<newline> '' \<and>
   list_all (\<lambda>c. token_count c < 10)
     (chunk_by_paragraphs (word_chunker 1000 200) ''  \<newline>\<newline> '') \<and>
   smart_chunk (word_chunker 1000 200) ''  \<newline>\<newline> '' [''source'' \<mapsto> PStr ''lease.pdf''] = Inr []"
proof -
  have h1: "[''source'' \<mapsto> PStr ''lease.pdf''] ''token_count'' = None" by simp
  have h2: "0 \<le> chunk_size (word_chunker 1000 200)" by (simp add: word_chunker_def)
  have h3: "list_all is_space ''  \<newline>\<newline> ''" by code_simp
  have h4: "list_all (\<lambda>c. token_count c < 10)
              (chunk_by_paragraphs (word_chunker 1000 200) ''  \<newline>\<newline> '')"
    by code_simp
  from smart_chunk_blank_input
         [of "[''source'' \<mapsto> PStr ''lease.pdf'']" "word_chunker 1000 200" "''  \<newline>\<newline> ''"]
       h1 h2 h3 h4
  show ?thesis by (simp add: list_all_iff)
qed

end
